theory Spec2Isabelle
  imports Main "HOL-Library.Multiset" "HOL-Library.Sublist" "HOL-Library.AList"
begin

section \<open>Data model of main.go\<close>

text \<open>
  A \<open>Line\<close> is a Go \<open>[]string\<close>; Go strings are byte sequences, so a field is a
  \<open>string\<close> (a list of bytes). A \<open>ResultUnit\<close> is the struct of the source. The
  program only ever handles result units through pointers (\<open>*ResultUnit\<close>), and three
  places hold pointers to the same objects (the slice \<open>resultUnits\<close>, the slice
  \<open>currentResultUnits\<close> and \<open>defaultResultUnit\<close>), so the objects live in an explicit
  store indexed by address. An address that was never allocated holds an empty unit; no
  function of the model ever reads one.
\<close>

type_synonym Line = "string list"

record ResultUnit =
  Name :: string
  Buffer :: "Line list"

type_synonym addr = nat

type_synonym store = "addr \<Rightarrow> ResultUnit"

text \<open>
  The ways the process dies: \<open>log.Fatal\<close> in \<open>splitFileByResult\<close> (\<open>InvalidCSV\<close>), the
  Go runtime panic of an index out of range (\<open>IndexOutOfRange\<close>), the \<open>panic\<close> of \<open>main\<close>
  when no unit carries the default name (\<open>DefaultUnitNotFound\<close>) and \<open>log.Fatal\<close> in
  \<open>writeFile\<close> when the export directory cannot be created (\<open>MkdirFailed\<close>).
\<close>

datatype error = InvalidCSV | IndexOutOfRange | DefaultUnitNotFound | MkdirFailed

subsection \<open>The pieces of the Go library the source calls\<close>

definition dquote :: char where
  "dquote = CHR 0x22"

text \<open>\<open>strings.HasPrefix(s, p)\<close> is \<open>len(s) >= len(p) && s[0:len(p)] == p\<close>.\<close>

definition HasPrefix :: "string \<Rightarrow> string \<Rightarrow> bool" where
  "HasPrefix s p = (length p \<le> length s \<and> take (length p) s = p)"

text \<open>\<open>strings.Index(s, sub)\<close>: the position of the first occurrence of \<open>sub\<close>, or -1.\<close>

fun Index :: "string \<Rightarrow> string \<Rightarrow> int" where
  "Index [] sub = (if sub = [] then 0 else - 1)"
| "Index (c # t) sub =
     (if HasPrefix (c # t) sub then 0
      else (let i = Index t sub in if i < 0 then - 1 else i + 1))"

text \<open>\<open>strings.Join(elems, sep)\<close>.\<close>

fun Join :: "string list \<Rightarrow> string \<Rightarrow> string" where
  "Join [] sep = []"
| "Join [x] sep = x"
| "Join (x # y # ys) sep = x @ sep @ Join (y # ys) sep"

text \<open>Indexing a slice, \<open>line[i]\<close>: a runtime panic when \<open>i\<close> is out of range.\<close>

definition at :: "Line \<Rightarrow> nat \<Rightarrow> error + string" where
  "at line i = (if i < length line then Inr (line ! i) else Inl IndexOutOfRange)"

section \<open>The partition engine\<close>

text \<open>
  \<open>splitFileByResult\<close> keeps two local variables, \<open>buffer\<close> and \<open>currentResultUnits\<close>,
  and hands their addresses to the three line parsers, which also mutate the units
  behind the pointers. The state the parsers thread is therefore the store together
  with the two locals.
\<close>

record pstate =
  heap :: store
  buffer :: "Line list"
  currentResultUnits :: "addr list"

definition parseDebetCreditLine ::
    "Line \<Rightarrow> addr list \<Rightarrow> pstate \<Rightarrow> error + (bool \<times> pstate)" where
  "parseDebetCreditLine line resultUnits st =
     (case at line 5 of
        Inl e \<Rightarrow> Inl e
      | Inr owner \<Rightarrow>
          if owner \<noteq> [] \<and> \<not> HasPrefix owner [dquote] then
            let exists = list_ex (\<lambda>u. Name (heap st u) = owner) (currentResultUnits st);
                cur = (if \<not> exists
                       then currentResultUnits st @
                            filter (\<lambda>u. Name (heap st u) = owner) resultUnits
                       else currentResultUnits st)
            in Inr (True, st\<lparr>buffer := buffer st @ [line], currentResultUnits := cur\<rparr>)
          else Inr (False, st))"

definition parseEmptyLine ::
    "Line \<Rightarrow> addr list \<Rightarrow> pstate \<Rightarrow> error + (bool \<times> pstate)" where
  "parseEmptyLine line resultUnits st =
     (case at line 0 of
        Inl e \<Rightarrow> Inl e
      | Inr ver \<Rightarrow>
          if ver = [] then Inr (True, st\<lparr>buffer := buffer st @ [line]\<rparr>)
          else Inr (False, st))"

text \<open>\<open>o.Buffer = append(o.Buffer, buff)\<close> for the unit at address \<open>o\<close>.\<close>

definition appendBuffer :: "Line \<Rightarrow> addr \<Rightarrow> store \<Rightarrow> store" where
  "appendBuffer buff o' h = h(o' := (h o')\<lparr>Buffer := Buffer (h o') @ [buff]\<rparr>)"

text \<open>The nested loops of \<open>parseNewVerificatLine\<close>: rows outside, units inside.\<close>

definition flush :: "addr list \<Rightarrow> Line list \<Rightarrow> store \<Rightarrow> store" where
  "flush cur buf h = fold (\<lambda>b. fold (appendBuffer b) cur) buf h"

text \<open>
  \<open>defaultResultUnit\<close> is an address: \<open>main\<close> panics before the call when the pointer
  is nil, so the function never receives a nil pointer.
\<close>

definition parseNewVerificatLine :: "Line \<Rightarrow> addr \<Rightarrow> pstate \<Rightarrow> bool \<times> pstate" where
  "parseNewVerificatLine line defaultResultUnit st =
     (let cur = (if length (currentResultUnits st) = 0 then [defaultResultUnit]
                 else currentResultUnits st)
      in (True, \<lparr>heap = flush cur (buffer st) (heap st),
                 buffer = [line],
                 currentResultUnits = []\<rparr>))"

text \<open>The body of the loop of \<open>splitFileByResult\<close>, for one line.\<close>

definition splitStep :: "addr list \<Rightarrow> addr \<Rightarrow> Line \<Rightarrow> pstate \<Rightarrow> error + pstate" where
  "splitStep resultUnits defaultResultUnit line st =
     (if length line \<noteq> 8 then Inl InvalidCSV
      else
        (case parseDebetCreditLine line resultUnits st of
           Inl e \<Rightarrow> Inl e
         | Inr (parsed, st1) \<Rightarrow>
             if parsed then Inr st1
             else
               (case parseEmptyLine line resultUnits st1 of
                  Inl e \<Rightarrow> Inl e
                | Inr (parsed2, st2) \<Rightarrow>
                    if parsed2 then Inr st2
                    else Inr (snd (parseNewVerificatLine line defaultResultUnit st2)))))"

fun splitLoop :: "addr list \<Rightarrow> addr \<Rightarrow> Line list \<Rightarrow> pstate \<Rightarrow> error + pstate" where
  "splitLoop resultUnits defaultResultUnit [] st = Inr st"
| "splitLoop resultUnits defaultResultUnit (line # lines) st =
     (case splitStep resultUnits defaultResultUnit line st of
        Inl e \<Rightarrow> Inl e
      | Inr st' \<Rightarrow> splitLoop resultUnits defaultResultUnit lines st')"

text \<open>
  \<open>splitFileByResult\<close> returns the slice it was given; what it computes is the store
  behind the pointers. The locals \<open>buffer\<close> and \<open>currentResultUnits\<close> are dropped when
  the function returns.
\<close>

definition splitFileByResult :: "store \<Rightarrow> addr list \<Rightarrow> addr \<Rightarrow> Line list \<Rightarrow> error + store" where
  "splitFileByResult h resultUnits defaultResultUnit lines =
     (case splitLoop resultUnits defaultResultUnit lines
             \<lparr>heap = h, buffer = [], currentResultUnits = []\<rparr> of
        Inl e \<Rightarrow> Inl e
      | Inr st \<Rightarrow> Inr (heap st))"

section \<open>Unit discovery\<close>

text \<open>
  \<open>ownerMap\<close> is a \<open>map[string]bool\<close> that only ever stores \<open>true\<close>; it is kept as an
  association list. Go leaves the order in which \<open>range\<close> visits a map unspecified:
  the model takes it as the parameter \<open>rng\<close>, which returns the keys in the order of
  the visit, and the theorems ask of it only that it permutes the keys.
\<close>

fun ownerLoop :: "Line list \<Rightarrow> (string \<times> bool) list \<Rightarrow> error + (string \<times> bool) list" where
  "ownerLoop [] ownerMap = Inr ownerMap"
| "ownerLoop (line # lines) ownerMap =
     (case at line 5 of
        Inl e \<Rightarrow> Inl e
      | Inr owner \<Rightarrow>
          if Index owner [dquote] = 0 then ownerLoop lines ownerMap
          else if owner = [] then ownerLoop lines ownerMap
          else ownerLoop lines (AList.update owner True ownerMap))"

text \<open>
  The second loop allocates one fresh unit per key, with an empty buffer: the unit of
  the \<open>i\<close>-th key visited lives at address \<open>i\<close>.
\<close>

definition newUnits :: "string list \<Rightarrow> store \<times> addr list" where
  "newUnits names =
     ((\<lambda>a. if a < length names then \<lparr>Name = names ! a, Buffer = []\<rparr>
            else \<lparr>Name = [], Buffer = []\<rparr>),
      [0..<length names])"

definition findResultUnits ::
    "(string list \<Rightarrow> string list) \<Rightarrow> Line list \<Rightarrow> error + (store \<times> addr list)" where
  "findResultUnits rng lines =
     (case ownerLoop lines [] of
        Inl e \<Rightarrow> Inl e
      | Inr ownerMap \<Rightarrow> Inr (newUnits (rng (map fst ownerMap))))"

section \<open>Export\<close>

text \<open>
  A \<open>DumpFn\<close> returns the bytes, the extension and the error (\<open>None\<close> is \<open>nil\<close>).
  \<open>dumpCSV\<close> is the one the source implements itself; \<open>dumpXLSX\<close> is a call sequence into
  the xlsx library and is only ever used through the \<open>DumpFn\<close> parameter.
\<close>

type_synonym DumpFn = "Line list \<Rightarrow> string \<times> string \<times> string option"

definition dumpCSV :: DumpFn where
  "dumpCSV buf = (concat (map (\<lambda>line. Join line '';'' @ [CHR 0x0A]) buf), ''csv'', None)"

text \<open>
  The operating system, as far as \<open>writeFile\<close> sees it: whether \<open>os.MkdirAll\<close> and
  \<open>ioutil.WriteFile\<close> succeed for a path, and \<open>path.Join\<close> of two elements.
\<close>

record os =
  MkdirAll :: "string \<Rightarrow> bool"
  WriteFile :: "string \<Rightarrow> bool"
  pathJoin :: "string \<Rightarrow> string \<Rightarrow> string"

datatype logline = Failed string | Exported string string

record out =
  files :: "(string \<times> string) list"
  logged :: "logline list"

text \<open>The body of the loop of \<open>writeFile\<close>, for one unit.\<close>

definition writeUnit ::
    "os \<Rightarrow> (string \<rightharpoonup> string) \<Rightarrow> DumpFn \<Rightarrow> string \<Rightarrow> ResultUnit \<Rightarrow> out \<Rightarrow> out" where
  "writeUnit sys resultMap dump exportDir owner w =
     (case dump (Buffer owner) of (data, ext, err) \<Rightarrow>
        let w1 = (if err \<noteq> None then w\<lparr>logged := logged w @ [Failed (Name owner)]\<rparr> else w);
            (outFile, w2) =
              (case resultMap (Name owner) of
                 Some targetDir \<Rightarrow>
                   (pathJoin sys (pathJoin sys exportDir targetDir) (Name owner @ ''.'' @ ext),
                    w1)
               | None \<Rightarrow>
                   (pathJoin sys (pathJoin sys exportDir (Name owner))
                      (''13. Verifikatlista.'' @ ext),
                    if \<not> MkdirAll sys (pathJoin sys exportDir (Name owner))
                    then w1\<lparr>logged := logged w1 @ [Failed (Name owner)]\<rparr> else w1))
        in if \<not> WriteFile sys outFile
           then w2\<lparr>logged := logged w2 @ [Failed (Name owner)]\<rparr>
           else w2\<lparr>files := files w2 @ [(outFile, data)],
                   logged := logged w2 @ [Exported (Name owner) outFile]\<rparr>)"

definition writeFile ::
    "os \<Rightarrow> store \<Rightarrow> addr list \<Rightarrow> (string \<rightharpoonup> string) \<Rightarrow> DumpFn \<Rightarrow> string \<Rightarrow> error + out" where
  "writeFile sys h resultUnits resultMap dump exportDir =
     (if \<not> MkdirAll sys exportDir then Inl MkdirFailed
      else Inr (fold (\<lambda>a. writeUnit sys resultMap dump exportDir (h a)) resultUnits
                  \<lparr>files = [], logged = []\<rparr>))"

section \<open>The program\<close>

definition defaultResultUnitName :: string where
  "defaultResultUnitName = ''Ztyret''"

definition resultMap :: "string \<rightharpoonup> string" where
  "resultMap = map_of
     [(''IntrezzeK'', ''Ztyret''),
      (''Revisorer'', ''Ztyret''),
      (''VB'', ''Ztyret''),
      (''ZKK'', ''Ztyret''),
      (''Zpel'', ''Ztyret''),
      (''Ztyret'', ''Ztyret''),
      (CHR ''Z'' # CHR 0xC3 # CHR 0x83 # CHR 0xE2 # CHR 0x80 # CHR 0xA6 # ''G'', ''Ztyret''),
      (''WebGroup'', ''Ztyret'')]"

text \<open>
  \<open>main\<close> after the command line is parsed and \<open>readFile\<close> has returned \<open>lines\<close>:
  discovery, the search for the default unit, the partition, the export.
\<close>

definition main ::
    "os \<Rightarrow> DumpFn \<Rightarrow> string \<Rightarrow> (string list \<Rightarrow> string list) \<Rightarrow> Line list \<Rightarrow> error + out" where
  "main sys dumpFn outDir rng lines =
     (case findResultUnits rng lines of
        Inl e \<Rightarrow> Inl e
      | Inr (h, resultUnits) \<Rightarrow>
          (case find (\<lambda>r. Name (h r) = defaultResultUnitName) resultUnits of
             None \<Rightarrow> Inl DefaultUnitNotFound
           | Some defaultResultUnit \<Rightarrow>
               (case splitFileByResult h resultUnits defaultResultUnit lines of
                  Inl e \<Rightarrow> Inl e
                | Inr h' \<Rightarrow> writeFile sys h' resultUnits resultMap dumpFn outDir)))"

section \<open>Notions the properties are stated with\<close>

subsection \<open>The three kinds of row\<close>

text \<open>
  The conditions the three parsers test, for a row that passed the length check:
  \<open>parseDebetCreditLine\<close> takes the row when field 5 is non-empty and does not start
  with a quote; otherwise \<open>parseEmptyLine\<close> takes it when field 0 is empty; otherwise
  \<open>parseNewVerificatLine\<close> takes it. The lemmas \<open>splitStep_ownership\<close>,
  \<open>splitStep_continuation\<close> and \<open>splitStep_newVoucher\<close> below tie each predicate to the
  branch of \<open>splitStep\<close> it selects.
\<close>

definition ownershipLine :: "Line \<Rightarrow> bool" where
  "ownershipLine line = (line ! 5 \<noteq> [] \<and> \<not> HasPrefix (line ! 5) [dquote])"

definition continuationLine :: "Line \<Rightarrow> bool" where
  "continuationLine line = (\<not> ownershipLine line \<and> line ! 0 = [])"

definition newVoucherLine :: "Line \<Rightarrow> bool" where
  "newVoucherLine line = (\<not> ownershipLine line \<and> line ! 0 \<noteq> [])"


text \<open>
  The unit names the ownership lines of some rows refer to, and the units of
  \<open>resultUnits\<close> that carry one of these names.
\<close>

definition owners :: "Line list \<Rightarrow> string set" where
  "owners g = set (map (\<lambda>l. l ! 5) (filter ownershipLine g))"

definition activated :: "store \<Rightarrow> addr list \<Rightarrow> Line list \<Rightarrow> addr set" where
  "activated h resultUnits g = set (filter (\<lambda>u. Name (h u) \<in> owners g) resultUnits)"

subsection \<open>Splitting an exported text again\<close>

text \<open>
  The reading side of the round trip, in the words of the specification (re-splitting
  the exported file by the same separator): it is not a function of main.go, whose
  only reader is the CSV library behind \<open>readFile\<close>. \<open>splitOn\<close> cuts a text at every
  occurrence of one byte, as \<open>strings.Split\<close> does for a one-byte separator; \<open>resplit\<close>
  cuts the text into the rows that a newline ends and every row at the separator.
\<close>

fun splitOn :: "char \<Rightarrow> string \<Rightarrow> string list" where
  "splitOn c [] = [[]]"
| "splitOn c (x # xs) =
     (if x = c then [] # splitOn c xs
      else (case splitOn c xs of [] \<Rightarrow> [[x]] | y # ys \<Rightarrow> (x # y) # ys))"

definition resplit :: "string \<Rightarrow> Line list" where
  "resplit txt = map (splitOn (CHR '';'')) (butlast (splitOn (CHR 0x0A) txt))"

text \<open>A field without separator and newline; a row of at least one such field.\<close>

definition plainField :: "string \<Rightarrow> bool" where
  "plainField f = (CHR '';'' \<notin> set f \<and> CHR 0x0A \<notin> set f)"

definition plainRow :: "Line \<Rightarrow> bool" where
  "plainRow line = (line \<noteq> [] \<and> list_all plainField line)"

subsection \<open>Concrete inputs\<close>

text \<open>
  Rows, stores and an operating system on which the definitions are evaluated below.
  \<open>headerRow\<close> is the single row of the specification's example; \<open>quotedRow\<close> has a
  field that contains the separator, as the CSV reader delivers it for a quoted input
  field; \<open>shortRow\<close> has seven fields and \<open>fiveFieldRow\<close> five.
\<close>

definition headerRow :: Line where
  "headerRow = [''1'', '''', ''h1'', ''h2'', ''h3'', '''', '''', '''']"

definition nextRow :: Line where
  "nextRow = [''2'', '''', '''', '''', '''', '''', '''', '''']"

definition detailRow :: Line where
  "detailRow = ['''', '''', ''d'', '''', '''', '''', '''', '''']"

definition ztyretRow :: Line where
  "ztyretRow = ['''', '''', '''', '''', '''', ''Ztyret'', '''', '''']"

definition vbRow :: Line where
  "vbRow = ['''', '''', '''', '''', '''', ''VB'', '''', '''']"


definition quotedRow :: Line where
  "quotedRow = [''7'', '''', ''a;b'', '''', '''', ''Ztyret'', '''', '''']"

definition shortRow :: Line where
  "shortRow = [''1'', '''', '''', '''', '''', '''', '''']"

definition fiveFieldRow :: Line where
  "fiveFieldRow = [''a'', ''b'', ''c'', ''d'', ''e'']"

text \<open>An operating system on which every call succeeds.\<close>

definition okSys :: os where
  "okSys = \<lparr>MkdirAll = (\<lambda>p. True), WriteFile = (\<lambda>p. True),
            pathJoin = (\<lambda>a b. a @ ''/'' @ b)\<rparr>"

text \<open>The store discovery builds for the unit names Ztyret and VB, and the initial state.\<close>

definition twoUnits :: store where
  "twoUnits = fst (newUnits [''Ztyret'', ''VB''])"

definition startState :: pstate where
  "startState = \<lparr>heap = twoUnits, buffer = [], currentResultUnits = []\<rparr>"

text \<open>
  A \<open>DumpFn\<close> that fails on an empty buffer and is \<open>dumpCSV\<close> otherwise, returning what
  \<open>dumpXLSX\<close> returns on its error paths (no bytes, an empty extension, the error); and
  a store after partitioning in which Ztyret received no row and VB one.
\<close>

definition failingDump :: DumpFn where
  "failingDump buf = (if buf = [] then ([], [], Some ''no rows'') else dumpCSV buf)"

definition exportStore :: store where
  "exportStore = (\<lambda>a. if a = 0 then \<lparr>Name = ''Ztyret'', Buffer = []\<rparr>
                       else \<lparr>Name = ''VB'', Buffer = [vbRow]\<rparr>)"


section \<open>Properties\<close>

subsection \<open>The quote test, and flushing a buffer into the store\<close>

lemma Index_zero_iff: "Index s [q] = 0 \<longleftrightarrow> HasPrefix s [q]"
  by (cases s) (auto simp: HasPrefix_def Let_def)

lemma appendBuffer_Name [simp]: "Name (appendBuffer b u h a) = Name (h a)"
  by (simp add: appendBuffer_def)

lemma appendBuffer_Buffer:
  "Buffer (appendBuffer b u h a) = Buffer (h a) @ (if a = u then [b] else [])"
  by (simp add: appendBuffer_def)

lemma fold_appendBuffer_Name [simp]: "Name (fold (appendBuffer b) cur h a) = Name (h a)"
  by (induction cur arbitrary: h) simp_all

lemma fold_appendBuffer_Buffer:
  "Buffer (fold (appendBuffer b) cur h a) = Buffer (h a) @ replicate (count_list cur a) b"
  by (induction cur arbitrary: h) (auto simp: appendBuffer_Buffer)

lemma flush_Name [simp]: "Name (flush cur buf h a) = Name (h a)"
  unfolding flush_def by (induction buf arbitrary: h) simp_all

lemma flush_Buffer:
  "Buffer (flush cur buf h a) =
     Buffer (h a) @ concat (map (replicate (count_list cur a)) buf)"
  unfolding flush_def
  by (induction buf arbitrary: h) (simp_all add: fold_appendBuffer_Buffer)

lemma count_list_distinct:
  "distinct xs \<Longrightarrow> count_list xs a = (if a \<in> set xs then 1 else 0)"
  by (induction xs) auto

lemma concat_replicate_one: "concat (map (replicate (Suc 0)) xs) = xs"
  by (induction xs) simp_all

lemma flush_Buffer_distinct:
  "distinct cur \<Longrightarrow>
   Buffer (flush cur buf h a) = Buffer (h a) @ (if a \<in> set cur then buf else [])"
  by (simp add: flush_Buffer count_list_distinct concat_replicate_one)

subsection \<open>The three branches of the loop body\<close>

lemma splitStep_ownership:
  assumes "length line = 8" and "ownershipLine line"
  shows "splitStep rus d line st =
     Inr (st\<lparr>buffer := buffer st @ [line],
             currentResultUnits :=
               (if list_ex (\<lambda>u. Name (heap st u) = line ! 5) (currentResultUnits st)
                then currentResultUnits st
                else currentResultUnits st @
                     filter (\<lambda>u. Name (heap st u) = line ! 5) rus)\<rparr>)"
  using assms
  by (simp add: splitStep_def parseDebetCreditLine_def at_def ownershipLine_def Let_def)

lemma splitStep_continuation:
  assumes "length line = 8" and "continuationLine line"
  shows "splitStep rus d line st = Inr (st\<lparr>buffer := buffer st @ [line]\<rparr>)"
  using assms
  by (auto simp: splitStep_def parseDebetCreditLine_def parseEmptyLine_def at_def
        ownershipLine_def continuationLine_def)

lemma splitStep_newVoucher:
  assumes "length line = 8" and "newVoucherLine line"
  shows "splitStep rus d line st =
     Inr \<lparr>heap = flush (if currentResultUnits st = [] then [d] else currentResultUnits st)
                   (buffer st) (heap st),
          buffer = [line], currentResultUnits = []\<rparr>"
  using assms
  by (auto simp: splitStep_def parseDebetCreditLine_def parseEmptyLine_def at_def
        ownershipLine_def newVoucherLine_def parseNewVerificatLine_def)

lemma splitLoop_append:
  "splitLoop rus d (xs @ ys) st =
     (case splitLoop rus d xs st of Inl e \<Rightarrow> Inl e | Inr st' \<Rightarrow> splitLoop rus d ys st')"
  by (induction xs arbitrary: st) (simp_all split: sum.splits)

lemma line_kinds:
  "ownershipLine l \<or> continuationLine l \<or> newVoucherLine l"
  by (auto simp: continuationLine_def newVoucherLine_def)

lemma splitStep_bad: "length l \<noteq> 8 \<Longrightarrow> splitStep rus d l st = Inl InvalidCSV"
  by (simp add: splitStep_def)

lemma splitStep_good: "length l = 8 \<Longrightarrow> \<exists>st'. splitStep rus d l st = Inr st'"
  using line_kinds [of l] splitStep_ownership [of l rus d st]
    splitStep_continuation [of l rus d st] splitStep_newVoucher [of l rus d st]
  by blast

lemma splitLoop_bad:
  "list_ex (\<lambda>l. length l \<noteq> 8) ls \<Longrightarrow> splitLoop rus d ls st = Inl InvalidCSV"
proof (induction ls arbitrary: st)
  case Nil
  then show ?case by simp
next
  case (Cons l ls)
  show ?case
  proof (cases "length l = 8")
    case True
    then obtain st1 where "splitStep rus d l st = Inr st1"
      using splitStep_good by blast
    then show ?thesis using Cons True by simp
  next
    case False
    then show ?thesis by (simp add: splitStep_bad)
  qed
qed

lemma splitLoop_good:
  "list_all (\<lambda>l. length l = 8) ls \<Longrightarrow> \<exists>st'. splitLoop rus d ls st = Inr st'"
proof (induction ls arbitrary: st)
  case Nil
  then show ?case by simp
next
  case (Cons l ls)
  then obtain st1 where "splitStep rus d l st = Inr st1"
    using splitStep_good [of l rus d st] by auto
  then show ?case using Cons by simp
qed

subsection \<open>Invariants of the loop and whole voucher groups\<close>

lemma owners_Cons:
  "owners (l # g) = (if ownershipLine l then insert (l ! 5) (owners g) else owners g)"
  by (simp add: owners_def)

lemma splitStep_distinct:
  assumes "splitStep rus d l st = Inr st'" and "distinct rus"
    and "distinct (currentResultUnits st)"
  shows "distinct (currentResultUnits st')"
proof -
  have len: "length l = 8"
    using assms(1) by (auto simp: splitStep_def split: if_splits)
  consider "ownershipLine l" | "continuationLine l" | "newVoucherLine l"
    using line_kinds by blast
  then show ?thesis
  proof cases
    case 1
    show ?thesis
      using assms splitStep_ownership [OF len 1, of rus d st]
      by (auto simp: list_ex_iff)
  next
    case 2
    show ?thesis
      using assms splitStep_continuation [OF len 2, of rus d st] by auto
  next
    case 3
    show ?thesis
      using assms splitStep_newVoucher [OF len 3, of rus d st] by auto
  qed
qed

lemma splitLoop_distinct:
  "splitLoop rus d ls st = Inr st' \<Longrightarrow> distinct rus \<Longrightarrow>
   distinct (currentResultUnits st) \<Longrightarrow> distinct (currentResultUnits st')"
proof (induction ls arbitrary: st)
  case Nil
  then show ?case by simp
next
  case (Cons l ls)
  then obtain st1 where s1: "splitStep rus d l st = Inr st1"
    and rest: "splitLoop rus d ls st1 = Inr st'"
    by (auto split: sum.splits)
  from splitStep_distinct [OF s1 Cons.prems(2) Cons.prems(3)]
  show ?case using Cons.IH [OF rest Cons.prems(2)] by simp
qed

lemma group_loop:
  assumes "list_all (\<lambda>l. length l = 8 \<and> \<not> newVoucherLine l) g"
    and "set (currentResultUnits st) = {u \<in> set rus. Name (heap st u) \<in> S}"
  shows "\<exists>st'. splitLoop rus d g st = Inr st' \<and> heap st' = heap st \<and>
           buffer st' = buffer st @ g \<and>
           set (currentResultUnits st') = {u \<in> set rus. Name (heap st u) \<in> S \<union> owners g}"
  using assms
proof (induction g arbitrary: st S)
  case Nil
  then show ?case by (simp add: owners_def)
next
  case (Cons l g)
  have len: "length l = 8" and nnv: "\<not> newVoucherLine l"
    and rest: "list_all (\<lambda>l. length l = 8 \<and> \<not> newVoucherLine l) g"
    using Cons.prems(1) by simp_all
  show ?case
  proof (cases "ownershipLine l")
    case True
    define cur1 where "cur1 =
               (if list_ex (\<lambda>u. Name (heap st u) = l ! 5) (currentResultUnits st)
                then currentResultUnits st
                else currentResultUnits st @
                     filter (\<lambda>u. Name (heap st u) = l ! 5) rus)"
    define st1 where "st1 = st\<lparr>buffer := buffer st @ [l], currentResultUnits := cur1\<rparr>"
    have step: "splitStep rus d l st = Inr st1"
      unfolding st1_def cur1_def by (rule splitStep_ownership [OF len True])
    have h1: "heap st1 = heap st" and b1: "buffer st1 = buffer st @ [l]"
      and c1: "currentResultUnits st1 = cur1"
      by (simp_all add: st1_def)
    have "set cur1 = {u \<in> set rus. Name (heap st u) \<in> insert (l ! 5) S}"
    proof (cases "list_ex (\<lambda>u. Name (heap st u) = l ! 5) (currentResultUnits st)")
      case True
      then obtain u where "u \<in> set (currentResultUnits st)" "Name (heap st u) = l ! 5"
        by (auto simp: list_ex_iff)
      then have "l ! 5 \<in> S" using Cons.prems(2) by auto
      then have "insert (l ! 5) S = S" by auto
      then show ?thesis using True Cons.prems(2) by (simp add: cur1_def)
    next
      case False
      then show ?thesis using Cons.prems(2) by (auto simp: cur1_def)
    qed
    then have cur1: "set (currentResultUnits st1) =
        {u \<in> set rus. Name (heap st1 u) \<in> insert (l ! 5) S}"
      by (simp add: h1 c1)
    from Cons.IH [OF rest cur1]
    obtain st' where r: "splitLoop rus d g st1 = Inr st'" "heap st' = heap st1"
      "buffer st' = buffer st1 @ g"
      "set (currentResultUnits st') =
         {u \<in> set rus. Name (heap st1 u) \<in> insert (l ! 5) S \<union> owners g}"
      by blast
    have o: "S \<union> owners (l # g) = insert (l ! 5) S \<union> owners g"
      using True by (simp add: owners_Cons)
    have "splitLoop rus d (l # g) st = Inr st'"
      by (simp add: step r(1))
    then show ?thesis
      using r(2-4) unfolding o h1 b1 by simp
  next
    case False
    then have cont: "continuationLine l"
      using nnv line_kinds by blast
    define st1 where "st1 = st\<lparr>buffer := buffer st @ [l]\<rparr>"
    have step: "splitStep rus d l st = Inr st1"
      unfolding st1_def by (rule splitStep_continuation [OF len cont])
    have h1: "heap st1 = heap st" and b1: "buffer st1 = buffer st @ [l]"
      and c1: "currentResultUnits st1 = currentResultUnits st"
      by (simp_all add: st1_def)
    have cur1: "set (currentResultUnits st1) = {u \<in> set rus. Name (heap st1 u) \<in> S}"
      using Cons.prems(2) by (simp add: h1 c1)
    from Cons.IH [OF rest cur1]
    obtain st' where r: "splitLoop rus d g st1 = Inr st'" "heap st' = heap st1"
      "buffer st' = buffer st1 @ g"
      "set (currentResultUnits st') = {u \<in> set rus. Name (heap st1 u) \<in> S \<union> owners g}"
      by blast
    have o: "owners (l # g) = owners g"
      using False by (simp add: owners_Cons)
    have "splitLoop rus d (l # g) st = Inr st'"
      by (simp add: step r(1))
    then show ?thesis
      using r(2-4) unfolding o h1 b1 by simp
  qed
qed

lemma group_flush:
  assumes g: "list_all (\<lambda>l. length l = 8 \<and> \<not> newVoucherLine l) g"
    and v': "length v' = 8" "newVoucherLine v'"
    and dist: "distinct rus"
    and buf: "currentResultUnits st = []"
  shows "\<exists>st'. splitLoop rus d (g @ [v']) st = Inr st' \<and>
           buffer st' = [v'] \<and> currentResultUnits st' = [] \<and>
           (\<forall>a. Name (heap st' a) = Name (heap st a) \<and>
                Buffer (heap st' a) = Buffer (heap st a) @
                  (if a \<in> (if activated (heap st) rus g = {} then {d}
                            else activated (heap st) rus g)
                   then buffer st @ g else []))"
proof -
  have c0: "set (currentResultUnits st) = {u \<in> set rus. Name (heap st u) \<in> {}}"
    using buf by simp
  from group_loop [OF g c0, of d]
  obtain st1 where l1: "splitLoop rus d g st = Inr st1" and h1: "heap st1 = heap st"
    and b1: "buffer st1 = buffer st @ g"
    and c1': "set (currentResultUnits st1) = {u \<in> set rus. Name (heap st u) \<in> {} \<union> owners g}"
    by blast
  have c1: "set (currentResultUnits st1) = activated (heap st) rus g"
    unfolding c1' activated_def by simp
  have d1: "distinct (currentResultUnits st1)"
    using splitLoop_distinct [OF l1 dist] buf by simp
  define cur where "cur = (if currentResultUnits st1 = [] then [d] else currentResultUnits st1)"
  define st2 where
    "st2 = \<lparr>heap = flush cur (buffer st1) (heap st1), buffer = [v'], currentResultUnits = []\<rparr>"
  have dc: "distinct cur" using d1 by (simp add: cur_def)
  have sc: "set cur = (if activated (heap st) rus g = {} then {d}
                            else activated (heap st) rus g)"
    unfolding c1 [symmetric] by (simp add: cur_def)
  have s2: "splitStep rus d v' st1 = Inr st2"
    unfolding st2_def cur_def by (rule splitStep_newVoucher [OF v'])
  have l2: "splitLoop rus d (g @ [v']) st = Inr st2"
    by (simp add: splitLoop_append l1 s2)
  have hp: "heap st2 = flush cur (buffer st @ g) (heap st)"
    by (simp add: st2_def h1 b1)
  have "\<forall>a. Name (heap st2 a) = Name (heap st a) \<and>
                Buffer (heap st2 a) = Buffer (heap st a) @
                  (if a \<in> set cur then buffer st @ g else [])"
    unfolding hp by (simp add: flush_Buffer_distinct [OF dc])
  then have "\<forall>a. Name (heap st2 a) = Name (heap st a) \<and>
                Buffer (heap st2 a) = Buffer (heap st a) @
                  (if a \<in> (if activated (heap st) rus g = {} then {d}
                            else activated (heap st) rus g)
                   then buffer st @ g else [])"
    unfolding sc .
  moreover have "buffer st2 = [v']" "currentResultUnits st2 = []"
    by (simp_all add: st2_def)
  ultimately show ?thesis using l2 by blast
qed

lemma continuation_loop:
  "list_all (\<lambda>l. length l = 8 \<and> continuationLine l) g \<Longrightarrow>
   splitLoop rus d g st = Inr (st\<lparr>buffer := buffer st @ g\<rparr>)"
proof (induction g arbitrary: st)
  case Nil
  then show ?case by simp
next
  case (Cons l g)
  have s: "splitStep rus d l st = Inr (st\<lparr>buffer := buffer st @ [l]\<rparr>)"
    using Cons.prems by (simp add: splitStep_continuation)
  have "splitLoop rus d g (st\<lparr>buffer := buffer st @ [l]\<rparr>) =
      Inr (st\<lparr>buffer := buffer st @ [l], buffer := buffer (st\<lparr>buffer := buffer st @ [l]\<rparr>) @ g\<rparr>)"
    using Cons.IH [of "st\<lparr>buffer := buffer st @ [l]\<rparr>"] Cons.prems by simp
  then show ?case using s by simp
qed

lemma new_voucher_step:
  assumes len: "length line = 8" and nv: "newVoucherLine line"
    and dc: "distinct (currentResultUnits st)"
  shows "\<exists>st'. splitStep rus d line st = Inr st' \<and>
           currentResultUnits st' = [] \<and> buffer st' = [line] \<and>
           (\<forall>a. Name (heap st' a) = Name (heap st a) \<and>
                Buffer (heap st' a) = Buffer (heap st a) @
                  (if a \<in> set (if currentResultUnits st = [] then [d]
                                else currentResultUnits st)
                   then buffer st else []))"
proof -
  define cur where "cur = (if currentResultUnits st = [] then [d] else currentResultUnits st)"
  have dcur: "distinct cur" using dc by (simp add: cur_def)
  define st' where
    "st' = \<lparr>heap = flush cur (buffer st) (heap st), buffer = [line], currentResultUnits = []\<rparr>"
  have s: "splitStep rus d line st = Inr st'"
    unfolding st'_def cur_def by (rule splitStep_newVoucher [OF len nv])
  have h: "heap st' = flush cur (buffer st) (heap st)" by (simp add: st'_def)
  have "\<forall>a. Name (heap st' a) = Name (heap st a) \<and>
                Buffer (heap st' a) = Buffer (heap st a) @
                  (if a \<in> set cur then buffer st else [])"
    unfolding h by (simp add: flush_Buffer_distinct [OF dcur])
  moreover have "currentResultUnits st' = []" "buffer st' = [line]"
    by (simp_all add: st'_def)
  ultimately show ?thesis using s unfolding cur_def by blast
qed

lemma default_only_group:
  assumes g: "list_all (\<lambda>l. length l = 8 \<and> continuationLine l) g"
    and v': "length v' = 8" "newVoucherLine v'"
    and c: "currentResultUnits st = []"
  shows "\<exists>st'. splitLoop rus d (g @ [v']) st = Inr st' \<and>
           (\<forall>a. Name (heap st' a) = Name (heap st a) \<and>
                Buffer (heap st' a) = Buffer (heap st a) @
                  (if a = d then buffer st @ g else []))"
proof -
  define st1 where "st1 = st\<lparr>buffer := buffer st @ g\<rparr>"
  have l1: "splitLoop rus d g st = Inr st1"
    unfolding st1_def by (rule continuation_loop [OF g])
  have c1: "currentResultUnits st1 = []" "distinct (currentResultUnits st1)"
    and b1: "buffer st1 = buffer st @ g" and h1: "heap st1 = heap st"
    using c by (simp_all add: st1_def)
  from new_voucher_step [OF v' c1(2), of rus d]
  obtain st' where s: "splitStep rus d v' st1 = Inr st'"
    and r: "\<forall>a. Name (heap st' a) = Name (heap st1 a) \<and>
                Buffer (heap st' a) = Buffer (heap st1 a) @
                  (if a \<in> set (if currentResultUnits st1 = [] then [d]
                                else currentResultUnits st1)
                   then buffer st1 else [])"
    by blast
  have "splitLoop rus d (g @ [v']) st = Inr st'"
    by (simp add: splitLoop_append l1 s)
  moreover have "\<forall>a. Name (heap st' a) = Name (heap st a) \<and>
                Buffer (heap st' a) = Buffer (heap st a) @
                  (if a = d then buffer st @ g else [])"
    using r unfolding c1(1) b1 h1 by simp
  ultimately show ?thesis by blast
qed

lemma group_after_voucher:
  assumes v: "length v = 8" "newVoucherLine v"
    and g: "list_all (\<lambda>l. length l = 8 \<and> \<not> newVoucherLine l) g"
    and v': "length v' = 8" "newVoucherLine v'"
    and dist: "distinct rus"
  shows "\<exists>st1 st2. splitStep rus d v st = Inr st1 \<and> buffer st1 = [v] \<and>
           currentResultUnits st1 = [] \<and>
           (\<forall>a. Name (heap st1 a) = Name (heap st a)) \<and>
           splitLoop rus d (g @ [v']) st1 = Inr st2 \<and>
           (\<forall>a. Buffer (heap st2 a) = Buffer (heap st1 a) @
                  (if a \<in> (if activated (heap st1) rus g = {} then {d}
                            else activated (heap st1) rus g)
                   then v # g else []))"
proof -
  define st1 where "st1 = \<lparr>heap = flush (if currentResultUnits st = [] then [d]
       else currentResultUnits st) (buffer st) (heap st), buffer = [v], currentResultUnits = []\<rparr>"
  have s: "splitStep rus d v st = Inr st1"
    unfolding st1_def by (rule splitStep_newVoucher [OF v])
  have b: "buffer st1 = [v]" and c: "currentResultUnits st1 = []"
    and n: "\<forall>a. Name (heap st1 a) = Name (heap st a)"
    by (simp_all add: st1_def)
  from group_flush [OF g v' dist c, of d]
  obtain st2 where "splitLoop rus d (g @ [v']) st1 = Inr st2"
    "\<forall>a. Name (heap st2 a) = Name (heap st1 a) \<and>
                Buffer (heap st2 a) = Buffer (heap st1 a) @
                  (if a \<in> (if activated (heap st1) rus g = {} then {d}
                            else activated (heap st1) rus g)
                   then buffer st1 @ g else [])"
    by blast
  then show ?thesis using s b c n by auto
qed

lemma splitStep_order:
  assumes s: "splitStep rus d l st = Inr st1" and dc: "distinct (currentResultUnits st)"
  shows "\<exists>zs. Buffer (heap st1 a) = Buffer (heap st a) @ zs \<and>
           Name (heap st1 a) = Name (heap st a) \<and>
           (\<forall>ys. subseq ys (buffer st1 @ ls) \<longrightarrow> subseq (zs @ ys) (buffer st @ l # ls))"
proof -
  have len: "length l = 8"
    using s by (auto simp: splitStep_def split: if_splits)
  consider "ownershipLine l" | "continuationLine l" | "newVoucherLine l"
    using line_kinds by blast
  then show ?thesis
  proof cases
    case 1
    have "heap st1 = heap st" "buffer st1 = buffer st @ [l]"
      using s splitStep_ownership [OF len 1, of rus d st] by auto
    then show ?thesis by simp
  next
    case 2
    have "heap st1 = heap st" "buffer st1 = buffer st @ [l]"
      using s splitStep_continuation [OF len 2, of rus d st] by auto
    then show ?thesis by simp
  next
    case 3
    define cur where "cur = (if currentResultUnits st = [] then [d] else currentResultUnits st)"
    have dcur: "distinct cur" using dc by (simp add: cur_def)
    have h1: "heap st1 = flush cur (buffer st) (heap st)" and b1: "buffer st1 = [l]"
      using s splitStep_newVoucher [OF len 3, of rus d st] by (auto simp: cur_def)
    show ?thesis
    proof (cases "a \<in> set cur")
      case True
      have "Buffer (heap st1 a) = Buffer (heap st a) @ buffer st"
        unfolding h1 using True by (simp add: flush_Buffer_distinct [OF dcur])
      moreover have "\<forall>ys. subseq ys (buffer st1 @ ls) \<longrightarrow>
           subseq (buffer st @ ys) (buffer st @ l # ls)"
        unfolding b1 by (simp add: list_emb_append_mono)
      moreover have "Name (heap st1 a) = Name (heap st a)"
        unfolding h1 by simp
      ultimately show ?thesis by blast
    next
      case False
      have "Buffer (heap st1 a) = Buffer (heap st a) @ []"
        unfolding h1 using False by (simp add: flush_Buffer_distinct [OF dcur])
      moreover have "\<forall>ys. subseq ys (buffer st1 @ ls) \<longrightarrow>
           subseq ([] @ ys) (buffer st @ l # ls)"
        unfolding b1 by (simp add: list_emb_append2)
      moreover have "Name (heap st1 a) = Name (heap st a)"
        unfolding h1 by simp
      ultimately show ?thesis by blast
    qed
  qed
qed

lemma splitLoop_order:
  assumes "splitLoop rus d ls st = Inr st'" and "distinct rus"
    and "distinct (currentResultUnits st)"
  shows "\<exists>xs. Buffer (heap st' a) = Buffer (heap st a) @ xs \<and>
           Name (heap st' a) = Name (heap st a) \<and>
           subseq (xs @ buffer st') (buffer st @ ls)"
  using assms
proof (induction ls arbitrary: st)
  case Nil
  then show ?case by simp
next
  case (Cons l ls)
  then obtain st1 where s1: "splitStep rus d l st = Inr st1"
    and rest: "splitLoop rus d ls st1 = Inr st'"
    by (auto split: sum.splits)
  have d1: "distinct (currentResultUnits st1)"
    by (rule splitStep_distinct [OF s1 Cons.prems(2) Cons.prems(3)])
  from Cons.IH [OF rest Cons.prems(2) d1]
  obtain ys where ys: "Buffer (heap st' a) = Buffer (heap st1 a) @ ys"
    "Name (heap st' a) = Name (heap st1 a)"
    "subseq (ys @ buffer st') (buffer st1 @ ls)"
    by blast
  from splitStep_order [OF s1 Cons.prems(3), of a ls]
  obtain zs where zs: "Buffer (heap st1 a) = Buffer (heap st a) @ zs"
    "Name (heap st1 a) = Name (heap st a)"
    "\<forall>ys. subseq ys (buffer st1 @ ls) \<longrightarrow> subseq (zs @ ys) (buffer st @ l # ls)"
    by blast
  have "subseq (zs @ ys @ buffer st') (buffer st @ l # ls)"
    using zs(3) ys(3) by blast
  then have "Buffer (heap st' a) = Buffer (heap st a) @ (zs @ ys) \<and>
      Name (heap st' a) = Name (heap st a) \<and>
      subseq ((zs @ ys) @ buffer st') (buffer st @ l # ls)"
    using ys(1,2) zs(1,2) by simp
  then show ?case by blast
qed

lemma trailing_rows_keep_store:
  "list_all (\<lambda>l. length l = 8 \<and> \<not> newVoucherLine l) g \<Longrightarrow>
   \<exists>st'. splitLoop rus d g st = Inr st' \<and> heap st' = heap st"
proof (induction g arbitrary: st)
  case Nil
  then show ?case by simp
next
  case (Cons l g)
  have len: "length l = 8" and nnv: "\<not> newVoucherLine l"
    and rest: "list_all (\<lambda>l. length l = 8 \<and> \<not> newVoucherLine l) g"
    using Cons.prems by simp_all
  have "\<exists>st1. splitStep rus d l st = Inr st1 \<and> heap st1 = heap st"
  proof (cases "ownershipLine l")
    case True
    show ?thesis by (simp add: splitStep_ownership [OF len True])
  next
    case False
    then have "continuationLine l" using nnv line_kinds by blast
    then show ?thesis by (simp add: splitStep_continuation [OF len])
  qed
  then obtain st1 where s: "splitStep rus d l st = Inr st1" and h: "heap st1 = heap st"
    by blast
  from Cons.IH [OF rest, of st1]
  show ?case using s h by simp
qed

lemma rows_after_last_voucher_dropped:
  assumes "list_all (\<lambda>l. length l = 8 \<and> \<not> newVoucherLine l) g"
  shows "splitFileByResult h rus d (pre @ g) = splitFileByResult h rus d pre"
proof (cases "splitLoop rus d pre \<lparr>heap = h, buffer = [], currentResultUnits = []\<rparr>")
  case (Inl e)
  then show ?thesis by (simp add: splitFileByResult_def splitLoop_append)
next
  case (Inr st1)
  from trailing_rows_keep_store [OF assms, of rus d st1]
  obtain st' where "splitLoop rus d g st1 = Inr st'" "heap st' = heap st1"
    by blast
  then show ?thesis using Inr by (simp add: splitFileByResult_def splitLoop_append)
qed

subsection \<open>What discovery returns\<close>

lemma ownerLoop_short:
  "list_ex (\<lambda>l. length l < 6) lines \<Longrightarrow> ownerLoop lines m = Inl IndexOutOfRange"
proof (induction lines arbitrary: m)
  case Nil
  then show ?case by simp
next
  case (Cons l lines)
  show ?case
  proof (cases "length l < 6")
    case True
    then show ?thesis by (simp add: at_def)
  next
    case False
    then have "list_ex (\<lambda>l. length l < 6) lines" using Cons.prems by simp
    then show ?thesis using Cons.IH False by (simp add: at_def)
  qed
qed


lemma ownerLoop_keys:
  "list_all (\<lambda>l. 6 \<le> length l) lines \<Longrightarrow>
   \<exists>m'. ownerLoop lines m = Inr m' \<and>
        set (map fst m') = set (map fst m) \<union> owners lines \<and>
        (distinct (map fst m) \<longrightarrow> distinct (map fst m'))"
proof (induction lines arbitrary: m)
  case Nil
  then show ?case by (simp add: owners_def)
next
  case (Cons l lines)
  have len: "5 < length l" and rest: "list_all (\<lambda>l. 6 \<le> length l) lines"
    using Cons.prems by simp_all
  show ?case
  proof (cases "ownershipLine l")
    case True
    have step: "ownerLoop (l # lines) m = ownerLoop lines (AList.update (l ! 5) True m)"
      using True len by (simp add: at_def ownershipLine_def Index_zero_iff)
    from Cons.IH [OF rest, of "AList.update (l ! 5) True m"]
    obtain m' where m': "ownerLoop lines (AList.update (l ! 5) True m) = Inr m'"
      "set (map fst m') = set (map fst (AList.update (l ! 5) True m)) \<union> owners lines"
      "distinct (map fst (AList.update (l ! 5) True m)) \<longrightarrow> distinct (map fst m')"
      by blast
    have k: "set (map fst (AList.update (l ! 5) True m)) = insert (l ! 5) (set (map fst m))"
      using dom_update [of "l ! 5" True m] by simp
    have "set (map fst m') = set (map fst m) \<union> owners (l # lines)"
      unfolding m'(2) k using True by (simp add: owners_Cons)
    moreover have "distinct (map fst m) \<longrightarrow> distinct (map fst m')"
      using m'(3) distinct_update [of m "l ! 5" True] by blast
    ultimately show ?thesis using step m'(1) by simp
  next
    case False
    have step: "ownerLoop (l # lines) m = ownerLoop lines m"
      using False len by (auto simp: at_def ownershipLine_def Index_zero_iff)
    have "owners (l # lines) = owners lines"
      using False by (simp add: owners_Cons)
    then show ?thesis using Cons.IH [OF rest, of m] step by simp
  qed
qed

lemma newUnits_names:
  "newUnits names = (h, us) \<Longrightarrow>
   us = [0..<length names] \<and> (\<forall>a < length names. h a = \<lparr>Name = names ! a, Buffer = []\<rparr>)"
  by (auto simp: newUnits_def)

lemma newUnits_name_set:
  assumes "newUnits names = (h, us)"
  shows "(\<lambda>u. Name (h u)) ` set us = set names"
proof -
  have us: "us = [0..<length names]"
    and h: "\<forall>a < length names. h a = \<lparr>Name = names ! a, Buffer = []\<rparr>"
    using newUnits_names [OF assms] by simp_all
  have "(\<lambda>u. Name (h u)) ` set us = (\<lambda>a. names ! a) ` {0..<length names}"
    unfolding us using h by (auto simp: image_iff)
  also have "\<dots> = set names"
    by (metis list.set_map map_nth set_upt)
  finally show ?thesis .
qed

lemma findResultUnits_discovers:
  assumes perm: "\<forall>ks. mset (rng ks) = mset ks"
    and len: "list_all (\<lambda>l. 6 \<le> length l) lines"
  shows "\<exists>h us. findResultUnits rng lines = Inr (h, us) \<and> distinct us \<and>
           (\<lambda>u. Name (h u)) ` set us = owners lines \<and>
           (\<forall>u \<in> set us. Buffer (h u) = [])"
proof -
  from ownerLoop_keys [OF len, of "[]"]
  obtain m where m: "ownerLoop lines [] = Inr m" "set (map fst m) = owners lines"
    by auto
  obtain h us where hu: "newUnits (rng (map fst m)) = (h, us)"
    by (cases "newUnits (rng (map fst m))") blast
  have f: "findResultUnits rng lines = Inr (h, us)"
    by (simp add: findResultUnits_def m(1) hu)
  have "set (rng (map fst m)) = set (map fst m)"
    using perm by (metis mset_eq_setD)
  then have n: "(\<lambda>u. Name (h u)) ` set us = owners lines"
    using newUnits_name_set [OF hu] m(2) by simp
  have "distinct us" "\<forall>u \<in> set us. Buffer (h u) = []"
    using newUnits_names [OF hu] by auto
  then show ?thesis using f n by blast
qed

lemma findResultUnits_short:
  "list_ex (\<lambda>l. length l < 6) lines \<Longrightarrow> findResultUnits rng lines = Inl IndexOutOfRange"
  by (simp add: findResultUnits_def ownerLoop_short)

lemma find_None_names:
  "find (\<lambda>r. Name (h r) = n) us = None \<longleftrightarrow> n \<notin> (\<lambda>u. Name (h u)) ` set us"
  by (auto simp: find_None_iff)



subsection \<open>How the program aborts\<close>

lemma default_name_owner:
  "defaultResultUnitName \<in> owners lines \<longleftrightarrow>
   list_ex (\<lambda>l. l ! 5 = defaultResultUnitName) lines"
proof -
  have nq: "\<not> HasPrefix defaultResultUnitName [dquote]" "defaultResultUnitName \<noteq> []"
    by (simp_all add: HasPrefix_def defaultResultUnitName_def dquote_def)
  have "defaultResultUnitName \<in> owners lines \<longleftrightarrow>
      (\<exists>l \<in> set lines. ownershipLine l \<and> l ! 5 = defaultResultUnitName)"
    unfolding owners_def by force
  also have "\<dots> \<longleftrightarrow> (\<exists>l \<in> set lines. l ! 5 = defaultResultUnitName)"
    using nq by (metis ownershipLine_def)
  finally show ?thesis by (simp add: list_ex_iff)
qed

lemma main_short:
  "list_ex (\<lambda>l. length l < 6) lines \<Longrightarrow> main sys dumpFn outDir rng lines = Inl IndexOutOfRange"
  by (simp add: main_def findResultUnits_short)

lemma main_no_default:
  assumes perm: "\<forall>ks. mset (rng ks) = mset ks"
    and len: "list_all (\<lambda>l. 6 \<le> length l) lines"
    and nd: "defaultResultUnitName \<notin> owners lines"
  shows "main sys dumpFn outDir rng lines = Inl DefaultUnitNotFound"
proof -
  from findResultUnits_discovers [OF perm len]
  obtain h us where f: "findResultUnits rng lines = Inr (h, us)"
    and n: "(\<lambda>u. Name (h u)) ` set us = owners lines"
    by blast
  have "find (\<lambda>r. Name (h r) = defaultResultUnitName) us = None"
    unfolding find_None_names n using nd .
  then show ?thesis by (simp add: main_def f)
qed

lemma main_invalid:
  assumes perm: "\<forall>ks. mset (rng ks) = mset ks"
    and len: "list_all (\<lambda>l. 6 \<le> length l) lines"
    and d: "defaultResultUnitName \<in> owners lines"
    and bad: "list_ex (\<lambda>l. length l \<noteq> 8) lines"
  shows "main sys dumpFn outDir rng lines = Inl InvalidCSV"
proof -
  from findResultUnits_discovers [OF perm len]
  obtain h us where f: "findResultUnits rng lines = Inr (h, us)"
    and n: "(\<lambda>u. Name (h u)) ` set us = owners lines"
    by blast
  have "find (\<lambda>r. Name (h r) = defaultResultUnitName) us \<noteq> None"
    unfolding find_None_names n using d by simp
  then obtain du where du: "find (\<lambda>r. Name (h r) = defaultResultUnitName) us = Some du"
    by blast
  have "splitFileByResult h us du lines = Inl InvalidCSV"
    by (simp add: splitFileByResult_def splitLoop_bad [OF bad])
  then show ?thesis by (simp add: main_def f du)
qed

subsection \<open>Facts about the concrete inputs\<close>

lemma example_rows:
  "length headerRow = 8" "newVoucherLine headerRow"
  "length nextRow = 8" "newVoucherLine nextRow"
  "list_all (\<lambda>l. length l = 8 \<and> \<not> newVoucherLine l) [ztyretRow, vbRow]"
  "list_all (\<lambda>l. length l = 8 \<and> continuationLine l) [detailRow]"
  "headerRow ! 0 \<noteq> []" "headerRow ! 5 = []"
  by (simp_all add: headerRow_def nextRow_def ztyretRow_def vbRow_def detailRow_def
      newVoucherLine_def continuationLine_def ownershipLine_def HasPrefix_def dquote_def)

lemma example_units:
  "Name (heap startState 0) = ''Ztyret''" "Name (heap startState (Suc 0)) = ''VB''"
  "owners [ztyretRow, vbRow] = {''Ztyret'', ''VB''}"
  "currentResultUnits startState = []"
  by (auto simp: startState_def twoUnits_def newUnits_def owners_def ztyretRow_def vbRow_def
      ownershipLine_def HasPrefix_def dquote_def)

section \<open>The end of the input\<close>

text \<open>
  C1. After the last input row the final voucher group, still held in the pending
  buffer, is to be flushed to the active units or to the default unit; the single row
  of the example is to end up in the default unit's buffer. The code has no flush after
  its loop. Evaluated on the example (with the default unit Ztyret discovered and at
  address 0), \<open>splitFileByResult\<close> leaves the buffer of the default unit empty; and
  the whole program, run on the header row followed by an ownership line for Ztyret,
  writes an empty file for Ztyret: both rows are dropped. For every input,
  \<open>rows_after_last_voucher_dropped\<close> above shows that the rows after the last
  new-voucher line leave the result of \<open>splitFileByResult\<close> as it was without them.
\<close>

theorem final_group_dropped:
  "map_sum id (\<lambda>h. Buffer (h 0))
     (splitFileByResult (fst (newUnits [''Ztyret''])) [0] 0 [headerRow]) = Inr [] \<and>
   main okSys dumpCSV ''out'' (\<lambda>ks. ks) [headerRow, ztyretRow] =
     Inr \<lparr>files = [(''out/Ztyret/Ztyret.csv'', [])],
          logged = [Exported ''Ztyret'' ''out/Ztyret/Ztyret.csv'']\<rparr>"
  by (simp add: main_def findResultUnits_def at_def headerRow_def ztyretRow_def newUnits_def
      splitFileByResult_def splitStep_def parseDebetCreditLine_def parseEmptyLine_def
      parseNewVerificatLine_def flush_def HasPrefix_def dquote_def defaultResultUnitName_def
      writeFile_def writeUnit_def okSys_def resultMap_def dumpCSV_def Let_def)

section \<open>Malformed rows and a missing default unit\<close>

text \<open>
  What \<open>main\<close> returns on any list of rows with a row that does not have exactly 8
  fields, whatever order \<open>range\<close> visits the owner map in: always an error, so
  \<open>writeFile\<close> is not reached. The list is any list of rows; \<open>readFile\<close> only returns
  lists whose rows all have the field count of the first row.
\<close>

lemma main_malformed_error:
  assumes perm: "\<forall>ks. mset (rng ks) = mset ks"
    and bad: "list_ex (\<lambda>l. length l \<noteq> 8) lines"
  shows "main sys dumpFn outDir rng lines =
           Inl (if list_ex (\<lambda>l. length l < 6) lines then IndexOutOfRange
                else if list_ex (\<lambda>l. l ! 5 = defaultResultUnitName) lines then InvalidCSV
                else DefaultUnitNotFound)"
proof (cases "list_ex (\<lambda>l. length l < 6) lines")
  case True
  then show ?thesis by (simp add: main_short)
next
  case False
  then have len: "list_all (\<lambda>l. 6 \<le> length l) lines"
    by (auto simp: list_ex_iff list_all_iff)
  show ?thesis
  proof (cases "defaultResultUnitName \<in> owners lines")
    case True
    then show ?thesis
      using False main_invalid [OF perm len True bad] default_name_owner by simp
  next
    case nd: False
    then show ?thesis
      using False main_no_default [OF perm len nd] default_name_owner by simp
  qed
qed

text \<open>
  The one-row input \<open>shortRow\<close> has seven fields and does not name the default unit:
  the run ends with the panic for the missing default unit, before the length check.
\<close>

lemma short_row_default_panic:
  "list_ex (\<lambda>l. length l \<noteq> 8) [shortRow] \<and>
   main okSys dumpCSV ''out'' (\<lambda>ks. ks) [shortRow] = Inl DefaultUnitNotFound"
  by (simp add: main_def findResultUnits_def at_def shortRow_def newUnits_def)

text \<open>
  C2. A row that does not have exactly 8 fields is to abort the run with the fatal
  input-format error, before any partitioning and before any file is written. The
  code has this check (its sanity check with the fatal invalid-CSV message), but only
  inside the loop of \<open>splitFileByResult\<close>, after \<open>findResultUnits\<close> has read field 5 of
  every row unchecked. On a file whose only row has five fields the run does not reach
  the check: unit discovery dies with the runtime panic of an index out of range, and
  \<open>main\<close> does not return the invalid-CSV error.
\<close>

theorem malformed_row_index_panic:
  "list_ex (\<lambda>l. length l \<noteq> 8) [fiveFieldRow] \<and>
   findResultUnits (\<lambda>ks. ks) [fiveFieldRow] = Inl IndexOutOfRange \<and>
   main okSys dumpCSV ''out'' (\<lambda>ks. ks) [fiveFieldRow] = Inl IndexOutOfRange \<and>
   main okSys dumpCSV ''out'' (\<lambda>ks. ks) [fiveFieldRow] \<noteq> Inl InvalidCSV"
  by (simp add: main_def findResultUnits_def at_def fiveFieldRow_def)

text \<open>
  C6. When discovery completes (every row has the field 5 it reads) and no ownership
  line names the default unit, the discovered units are exactly those of the names
  in \<open>owners lines\<close>, none of them is the default unit, and \<open>main\<close> ends with the panic
  for the missing default unit: nothing is partitioned and \<open>writeFile\<close> is not reached,
  whatever the rows look like otherwise.
\<close>

theorem missing_default_unit_aborts:
  assumes perm: "\<forall>ks. mset (rng ks) = mset ks"
    and len: "list_all (\<lambda>l. 6 \<le> length l) lines"
    and nd: "defaultResultUnitName \<notin> owners lines"
  shows "\<exists>h us. findResultUnits rng lines = Inr (h, us) \<and>
           (\<lambda>u. Name (h u)) ` set us = owners lines \<and>
           find (\<lambda>r. Name (h r) = defaultResultUnitName) us = None \<and>
           main sys dumpFn outDir rng lines = Inl DefaultUnitNotFound"
proof -
  from findResultUnits_discovers [OF perm len]
  obtain h us where f: "findResultUnits rng lines = Inr (h, us)"
    and n: "(\<lambda>u. Name (h u)) ` set us = owners lines"
    by blast
  have "find (\<lambda>r. Name (h r) = defaultResultUnitName) us = None"
    unfolding find_None_names n using nd .
  then show ?thesis
    using f n main_no_default [OF perm len nd] by blast
qed

theorem missing_default_unit_aborts_witness:
  "(\<forall>ks. mset ((\<lambda>ks. ks) ks) = mset ks) \<and>
   list_all (\<lambda>l. 6 \<le> length l) [headerRow] \<and>
   defaultResultUnitName \<notin> owners [headerRow] \<and>
   main okSys dumpCSV ''out'' (\<lambda>ks. ks) [headerRow] = Inl DefaultUnitNotFound"
  using missing_default_unit_aborts [of "\<lambda>ks. ks" "[headerRow]" okSys dumpCSV "''out''"]
  by (simp add: headerRow_def owners_def ownershipLine_def)

section \<open>Voucher groups\<close>

text \<open>
  C3. A voucher group is a new-voucher line \<open>v\<close> and the rows \<open>g\<close> up to the next
  new-voucher line \<open>v'\<close>. When ownership lines of the group name two distinct units
  \<open>ua\<close> and \<open>ub\<close> of \<open>resultUnits\<close>, then after the flush that \<open>v'\<close> triggers the buffers
  of both units have grown by exactly the rows of the group, \<open>v # g\<close>, in their order.
  The addresses in \<open>resultUnits\<close> are distinct, as discovery allocates them.
\<close>

theorem group_reaches_both_units:
  assumes v: "length v = 8" "newVoucherLine v"
    and g: "list_all (\<lambda>l. length l = 8 \<and> \<not> newVoucherLine l) g"
    and v': "length v' = 8" "newVoucherLine v'"
    and dist: "distinct rus"
    and a: "ua \<in> set rus" "Name (heap st ua) \<in> owners g"
    and b: "ub \<in> set rus" "Name (heap st ub) \<in> owners g"
    and ab: "Name (heap st ua) \<noteq> Name (heap st ub)"
  shows "\<exists>st1 st2. splitStep rus d v st = Inr st1 \<and>
           splitLoop rus d (g @ [v']) st1 = Inr st2 \<and>
           Buffer (heap st2 ua) = Buffer (heap st1 ua) @ v # g \<and>
           Buffer (heap st2 ub) = Buffer (heap st1 ub) @ v # g"
proof -
  from group_after_voucher [OF v g v' dist, of d st]
  obtain st1 st2 where s: "splitStep rus d v st = Inr st1"
    and n: "\<forall>a. Name (heap st1 a) = Name (heap st a)"
    and l: "splitLoop rus d (g @ [v']) st1 = Inr st2"
    and r: "\<forall>a. Buffer (heap st2 a) = Buffer (heap st1 a) @
                  (if a \<in> (if activated (heap st1) rus g = {} then {d}
                            else activated (heap st1) rus g)
                   then v # g else [])"
    by blast
  have "ua \<in> activated (heap st1) rus g" "ub \<in> activated (heap st1) rus g"
    using a b n by (simp_all add: activated_def)
  then have "Buffer (heap st2 ua) = Buffer (heap st1 ua) @ v # g"
    "Buffer (heap st2 ub) = Buffer (heap st1 ub) @ v # g"
    using r by auto
  then show ?thesis using s l by blast
qed

theorem group_reaches_both_units_witness:
  "length headerRow = 8 \<and> newVoucherLine headerRow \<and>
   list_all (\<lambda>l. length l = 8 \<and> \<not> newVoucherLine l) [ztyretRow, vbRow] \<and>
   length nextRow = 8 \<and> newVoucherLine nextRow \<and> distinct [0, 1 :: nat] \<and>
   Name (heap startState 0) \<in> owners [ztyretRow, vbRow] \<and>
   Name (heap startState 1) \<in> owners [ztyretRow, vbRow] \<and>
   Name (heap startState 0) \<noteq> Name (heap startState 1) \<and>
   (\<exists>st1 st2. splitStep [0, 1] 0 headerRow startState = Inr st1 \<and>
      splitLoop [0, 1] 0 ([ztyretRow, vbRow] @ [nextRow]) st1 = Inr st2 \<and>
      Buffer (heap st2 0) = Buffer (heap st1 0) @ headerRow # [ztyretRow, vbRow] \<and>
      Buffer (heap st2 1) = Buffer (heap st1 1) @ headerRow # [ztyretRow, vbRow])"
proof -
  have d: "distinct [0, 1 :: nat]" by simp
  have a: "(0::nat) \<in> set [0, 1]" "Name (heap startState 0) \<in> owners [ztyretRow, vbRow]"
    and b: "(1::nat) \<in> set [0, 1]" "Name (heap startState 1) \<in> owners [ztyretRow, vbRow]"
    and ab: "Name (heap startState 0) \<noteq> Name (heap startState 1)"
    by (simp_all add: example_units)
  from group_reaches_both_units [OF example_rows(1,2,5,3,4) d a b ab, of 0]
  show ?thesis using example_rows(1-5) d a b ab by blast
qed

text \<open>
  C4. Processing a new-voucher line appends the pending buffer, in order, to the buffer
  of every unit in \<open>currentResultUnits\<close>, or of the default unit alone when that list
  is empty, changes no other buffer and no name, and leaves \<open>currentResultUnits\<close> empty
  and the pending buffer holding exactly the new row. Consequently a group without an
  ownership line (all its rows \<open>g\<close> are continuation lines) reaches the default unit
  and no other unit at the next new-voucher line \<open>v'\<close>. The list of current units has
  no duplicates, which holds in every state the loop reaches (\<open>splitLoop_distinct\<close>).
\<close>

theorem new_voucher_line_flushes:
  assumes len: "length line = 8" and nv: "newVoucherLine line"
    and dc: "distinct (currentResultUnits st)"
  shows "\<exists>st'. splitStep rus d line st = Inr st' \<and>
           currentResultUnits st' = [] \<and> buffer st' = [line] \<and>
           (\<forall>a. Name (heap st' a) = Name (heap st a) \<and>
                Buffer (heap st' a) = Buffer (heap st a) @
                  (if a \<in> set (if currentResultUnits st = [] then [d]
                                else currentResultUnits st)
                   then buffer st else [])) \<and>
           (list_all (\<lambda>l. length l = 8 \<and> continuationLine l) g \<and>
            length v' = 8 \<and> newVoucherLine v' \<longrightarrow>
            (\<exists>st''. splitLoop rus d (g @ [v']) st' = Inr st'' \<and>
               (\<forall>a. Buffer (heap st'' a) = Buffer (heap st' a) @
                      (if a = d then line # g else []))))"
proof -
  from new_voucher_step [OF len nv dc, of rus d]
  obtain st' where s: "splitStep rus d line st = Inr st'"
    and c: "currentResultUnits st' = []" and b: "buffer st' = [line]"
    and r: "\<forall>a. Name (heap st' a) = Name (heap st a) \<and>
                Buffer (heap st' a) = Buffer (heap st a) @
                  (if a \<in> set (if currentResultUnits st = [] then [d]
                                else currentResultUnits st)
                   then buffer st else [])"
    by blast
  have "list_all (\<lambda>l. length l = 8 \<and> continuationLine l) g \<and>
            length v' = 8 \<and> newVoucherLine v' \<longrightarrow>
            (\<exists>st''. splitLoop rus d (g @ [v']) st' = Inr st'' \<and>
               (\<forall>a. Buffer (heap st'' a) = Buffer (heap st' a) @
                      (if a = d then line # g else [])))"
  proof
    assume a: "list_all (\<lambda>l. length l = 8 \<and> continuationLine l) g \<and>
            length v' = 8 \<and> newVoucherLine v'"
    from default_only_group [of g v' st' rus d] a c
    obtain st'' where "splitLoop rus d (g @ [v']) st' = Inr st''"
      "\<forall>a. Name (heap st'' a) = Name (heap st' a) \<and>
                Buffer (heap st'' a) = Buffer (heap st' a) @
                  (if a = d then buffer st' @ g else [])"
      by blast
    then show "\<exists>st''. splitLoop rus d (g @ [v']) st' = Inr st'' \<and>
               (\<forall>a. Buffer (heap st'' a) = Buffer (heap st' a) @
                      (if a = d then line # g else []))"
      unfolding b by auto
  qed
  then show ?thesis using s c b r by blast
qed

theorem new_voucher_line_flushes_witness:
  "length headerRow = 8 \<and> newVoucherLine headerRow \<and>
   distinct (currentResultUnits startState) \<and>
   list_all (\<lambda>l. length l = 8 \<and> continuationLine l) [detailRow] \<and>
   length nextRow = 8 \<and> newVoucherLine nextRow \<and>
   (\<exists>st'. splitStep [0, 1] 0 headerRow startState = Inr st' \<and>
      currentResultUnits st' = [] \<and> buffer st' = [headerRow] \<and>
      (\<exists>st''. splitLoop [0, 1] 0 ([detailRow] @ [nextRow]) st' = Inr st'' \<and>
         Buffer (heap st'' 0) = Buffer (heap st' 0) @ [headerRow, detailRow] \<and>
         Buffer (heap st'' 1) = Buffer (heap st' 1)))"
proof -
  have dc: "distinct (currentResultUnits startState)" by (simp add: example_units)
  from new_voucher_line_flushes [OF example_rows(1,2) dc, of "[0, 1]" 0 "[detailRow]" nextRow]
  obtain st' where s: "splitStep [0, 1] 0 headerRow startState = Inr st'"
    "currentResultUnits st' = []" "buffer st' = [headerRow]"
    and r: "list_all (\<lambda>l. length l = 8 \<and> continuationLine l) [detailRow] \<and>
            length nextRow = 8 \<and> newVoucherLine nextRow \<longrightarrow>
            (\<exists>st''. splitLoop [0, 1] 0 ([detailRow] @ [nextRow]) st' = Inr st'' \<and>
               (\<forall>a. Buffer (heap st'' a) = Buffer (heap st' a) @
                      (if a = 0 then headerRow # [detailRow] else [])))"
    by blast
  from r example_rows(3,4,6)
  obtain st'' where l: "splitLoop [0, 1] 0 ([detailRow] @ [nextRow]) st' = Inr st''"
    and bb: "\<forall>a. Buffer (heap st'' a) = Buffer (heap st' a) @
                      (if a = 0 then headerRow # [detailRow] else [])"
    by blast
  have "Buffer (heap st'' 0) = Buffer (heap st' 0) @ [headerRow, detailRow]"
    "Buffer (heap st'' 1) = Buffer (heap st' 1)"
    using bb by simp_all
  then show ?thesis using example_rows(1-4,6) dc s l by blast
qed

text \<open>
  C7. A header row (field 0 non-empty, field 5 empty) is a new-voucher line. It opens
  a group: after it the pending buffer holds the header alone and no unit is current.
  At the next new-voucher line \<open>v'\<close> the header and the rows \<open>g\<close> after it are appended
  to the units that the ownership lines of \<open>g\<close> activate, or to the default unit when
  there is none, and the buffer of every other unit stays as it was.
\<close>

theorem header_row_follows_its_group:
  assumes v: "length v = 8" "v ! 0 \<noteq> []" "v ! 5 = []"
    and g: "list_all (\<lambda>l. length l = 8 \<and> \<not> newVoucherLine l) g"
    and v': "length v' = 8" "newVoucherLine v'"
    and dist: "distinct rus"
  shows "newVoucherLine v \<and>
         (\<exists>st1 st2. splitStep rus d v st = Inr st1 \<and> buffer st1 = [v] \<and>
           currentResultUnits st1 = [] \<and>
           splitLoop rus d (g @ [v']) st1 = Inr st2 \<and>
           (\<forall>a. Buffer (heap st2 a) = Buffer (heap st1 a) @
                  (if a \<in> (if activated (heap st1) rus g = {} then {d}
                            else activated (heap st1) rus g)
                   then v # g else [])))"
proof -
  have nv: "newVoucherLine v"
    using v(2,3) by (simp add: newVoucherLine_def ownershipLine_def)
  from group_after_voucher [OF v(1) nv g v' dist, of d st]
  show ?thesis using nv by blast
qed

theorem header_row_follows_its_group_witness:
  "length headerRow = 8 \<and> headerRow ! 0 \<noteq> [] \<and> headerRow ! 5 = [] \<and>
   list_all (\<lambda>l. length l = 8 \<and> \<not> newVoucherLine l) [ztyretRow] \<and>
   length nextRow = 8 \<and> newVoucherLine nextRow \<and> distinct [0, 1 :: nat] \<and>
   newVoucherLine headerRow \<and>
   (\<exists>st1 st2. splitStep [0, 1] 0 headerRow startState = Inr st1 \<and>
      splitLoop [0, 1] 0 ([ztyretRow] @ [nextRow]) st1 = Inr st2 \<and>
      Buffer (heap st2 0) = Buffer (heap st1 0) @ [headerRow, ztyretRow] \<and>
      Buffer (heap st2 1) = Buffer (heap st1 1))"
proof -
  have d: "distinct [0, 1 :: nat]" by simp
  have g: "list_all (\<lambda>l. length l = 8 \<and> \<not> newVoucherLine l) [ztyretRow]"
    using example_rows(5) by simp
  from header_row_follows_its_group [OF example_rows(1,7,8) g example_rows(3,4) d, of 0 startState]
  obtain st1 st2 where s: "splitStep [0, 1] 0 headerRow startState = Inr st1"
    and l: "splitLoop [0, 1] 0 ([ztyretRow] @ [nextRow]) st1 = Inr st2"
    and r: "\<forall>a. Buffer (heap st2 a) = Buffer (heap st1 a) @
                  (if a \<in> (if activated (heap st1) [0, 1] [ztyretRow] = {} then {0}
                            else activated (heap st1) [0, 1] [ztyretRow])
                   then headerRow # [ztyretRow] else [])"
    by blast
  have st1: "st1 = \<lparr>heap = flush [0] [] twoUnits, buffer = [headerRow], currentResultUnits = []\<rparr>"
    using s splitStep_newVoucher [OF example_rows(1,2), of "[0, 1]" 0 startState]
    by (simp add: startState_def)
  have act: "activated (heap st1) [0, 1] [ztyretRow] = {0}"
    by (auto simp: st1 activated_def owners_def twoUnits_def newUnits_def ztyretRow_def
        ownershipLine_def HasPrefix_def dquote_def)
  have "Buffer (heap st2 0) = Buffer (heap st1 0) @ [headerRow, ztyretRow]"
    "Buffer (heap st2 1) = Buffer (heap st1 1)"
    using r unfolding act by simp_all
  then show ?thesis using example_rows(1-4,7,8) g d s l by blast
qed

section \<open>Unit names\<close>






section \<open>Export\<close>

lemma splitOn_append:
  "c \<notin> set s \<Longrightarrow> splitOn c (s @ c # t) = s # splitOn c t"
  by (induction s) auto

lemma splitOn_plain: "c \<notin> set s \<Longrightarrow> splitOn c s = [s]"
  by (induction s) auto

lemma splitOn_Join:
  "line \<noteq> [] \<Longrightarrow> list_all (\<lambda>f. c \<notin> set f) line \<Longrightarrow> splitOn c (Join line [c]) = line"
proof (induction line "[c]" rule: Join.induct)
  case 1
  then show ?case by simp
next
  case (2 x)
  then show ?case by (simp add: splitOn_plain)
next
  case (3 x y ys)
  then show ?case using splitOn_append [of c x "Join (y # ys) [c]"] by simp
qed

lemma Join_no_char:
  "list_all (\<lambda>f. c \<notin> set f) line \<Longrightarrow> c \<notin> set sep \<Longrightarrow> c \<notin> set (Join line sep)"
  by (induction line sep rule: Join.induct) simp_all

lemma splitOn_rows:
  "list_all (\<lambda>r. c \<notin> set r) rows \<Longrightarrow>
   splitOn c (concat (map (\<lambda>r. r @ [c]) rows)) = rows @ [[]]"
  by (induction rows) (simp_all add: splitOn_append)

lemma dumpCSV_data:
  "fst (dumpCSV buf) = concat (map (\<lambda>r. r @ [CHR 0x0A]) (map (\<lambda>line. Join line '';'') buf))"
  by (simp add: dumpCSV_def comp_def)

text \<open>
  C8, as the code has it. \<open>dumpCSV\<close> joins the fields with the separator and ends
  every row with a newline, without quoting. For a buffer whose rows have at least
  one field and whose fields contain neither the separator nor a newline, splitting
  the exported text again gives the buffer back, field for field.
\<close>

theorem dumpCSV_resplit:
  assumes "list_all plainRow buf"
  shows "resplit (fst (dumpCSV buf)) = buf"
proof -
  have nl: "list_all (\<lambda>r. CHR 0x0A \<notin> set r) (map (\<lambda>line. Join line '';'') buf)"
    unfolding list_all_iff
  proof
    fix r assume "r \<in> set (map (\<lambda>line. Join line '';'') buf)"
    then obtain line where l: "line \<in> set buf" and r: "r = Join line '';''"
      by auto
    have "list_all (\<lambda>f. CHR 0x0A \<notin> set f) line"
      using assms l by (auto simp: list_all_iff plainRow_def plainField_def)
    then show "CHR 0x0A \<notin> set r"
      unfolding r by (rule Join_no_char) simp
  qed
  have "resplit (fst (dumpCSV buf)) =
      map (splitOn (CHR '';'')) (map (\<lambda>line. Join line '';'') buf)"
    unfolding resplit_def dumpCSV_data splitOn_rows [OF nl] by simp
  also have "\<dots> = map (\<lambda>line. line) buf"
    unfolding map_map comp_def
  proof (rule map_cong [OF refl])
    fix line assume "line \<in> set buf"
    then have "line \<noteq> []" "list_all (\<lambda>f. CHR '';'' \<notin> set f) line"
      using assms by (auto simp: list_all_iff plainRow_def plainField_def)
    then show "splitOn (CHR '';'') (Join line '';'') = line"
      using splitOn_Join [of line "CHR '';''"] by simp
  qed
  finally show ?thesis by simp
qed

theorem dumpCSV_resplit_witness:
  "list_all plainRow [[''1'', '''', ''h1'', ''h2'', ''h3'', '''', '''', '''']] \<and>
   resplit (fst (dumpCSV [[''1'', '''', ''h1'', ''h2'', ''h3'', '''', '''', '''']])) =
     [[''1'', '''', ''h1'', ''h2'', ''h3'', '''', '''', '''']]"
  using dumpCSV_resplit [of "[[''1'', '''', ''h1'', ''h2'', ''h3'', '''', '''', '''']]"]
  by (simp add: plainRow_def plainField_def)

text \<open>
  C8 as stated fails: a field that contains the separator is exported unquoted, and
  the row of eight fields comes back as a row of nine.
\<close>

theorem dumpCSV_resplit_counterexample:
  "resplit (fst (dumpCSV [quotedRow])) \<noteq> [quotedRow]"
  by (simp add: resplit_def dumpCSV_def quotedRow_def)

text \<open>
  C9. When serializing one unit's buffer fails, the failure is to be reported, the
  other units are still to be exported, and the failed unit is to get no file. The
  code logs the failure and goes on with the same unit: with a \<open>DumpFn\<close> that fails for
  Ztyret and succeeds for VB, \<open>writeFile\<close> logs the failure of Ztyret, then writes an
  empty file for Ztyret under a name with an empty extension and logs its export, and
  then exports VB.
\<close>

theorem failed_dump_still_writes:
  "writeFile okSys exportStore [0, 1] resultMap failingDump ''out'' =
     Inr \<lparr>files = [(''out/Ztyret/Ztyret.'', []),
                   (''out/Ztyret/VB.csv'', '';;;;;VB;;'' @ [CHR 0x0A])],
          logged = [Failed ''Ztyret'',
                    Exported ''Ztyret'' ''out/Ztyret/Ztyret.'',
                    Exported ''VB'' ''out/Ztyret/VB.csv'']\<rparr>"
  by (simp add: writeFile_def writeUnit_def okSys_def exportStore_def failingDump_def
      resultMap_def dumpCSV_def vbRow_def)

section \<open>The order of the rows in a buffer\<close>

text \<open>
  C10. When \<open>splitFileByResult\<close> returns, the buffer of every unit is its old buffer
  followed by rows \<open>xs\<close> that form a subsequence of the input: buffers only grow at
  the end, and the rows added stand in the order of the input. Discovery hands over
  empty buffers, for which the buffer itself is a subsequence of the input.
\<close>

theorem buffers_keep_input_order:
  assumes dist: "distinct rus"
    and run: "splitFileByResult h rus d lines = Inr h'"
  shows "\<exists>xs. Buffer (h' a) = Buffer (h a) @ xs \<and> subseq xs lines"
proof -
  define st0 where "st0 = \<lparr>heap = h, buffer = [], currentResultUnits = []\<rparr>"
  from run obtain st' where l: "splitLoop rus d lines st0 = Inr st'" and h': "h' = heap st'"
    by (auto simp: splitFileByResult_def st0_def split: sum.splits)
  have d0: "distinct (currentResultUnits st0)" by (simp add: st0_def)
  from splitLoop_order [OF l dist d0, of a]
  obtain xs where xs: "Buffer (heap st' a) = Buffer (heap st0 a) @ xs"
    "subseq (xs @ buffer st') (buffer st0 @ lines)"
    by blast
  have p: "subseq xs (xs @ buffer st')"
    by (rule list_emb_prefix) (rule subseq_order.order_refl)
  have "subseq (xs @ buffer st') lines"
    using xs(2) by (simp add: st0_def)
  then have "subseq xs lines"
    using p by (rule subseq_order.order_trans [rotated])
  then show ?thesis using xs(1) h' by (auto simp: st0_def)
qed

theorem buffers_keep_input_order_witness:
  "distinct [0, 1 :: nat] \<and>
   (\<exists>h'. splitFileByResult twoUnits [0, 1] 0 [headerRow, ztyretRow, nextRow] = Inr h' \<and>
      (\<exists>xs. Buffer (h' 0) = Buffer (twoUnits 0) @ xs \<and>
            subseq xs [headerRow, ztyretRow, nextRow]))"
proof -
  have d: "distinct [0, 1 :: nat]" by simp
  have "list_all (\<lambda>l. length l = 8) [headerRow, ztyretRow, nextRow]"
    by (simp add: headerRow_def ztyretRow_def nextRow_def)
  from splitLoop_good [OF this]
  obtain h' where r: "splitFileByResult twoUnits [0, 1] 0 [headerRow, ztyretRow, nextRow] = Inr h'"
    unfolding splitFileByResult_def by (metis old.sum.simps(6))
  from buffers_keep_input_order [OF d r, of 0]
  show ?thesis using d r by blast
qed

end
